theory Spec2Isabelle
  imports Main "HOL-Library.Word"
begin

section \<open>Driver for the MaixSense A010 depth sensor: data model\<close>

text \<open>
  The driver class \<open>jhcTofCam\<close> keeps 8 bit images in \<open>unsigned char\<close> arrays and the
  published 16 bit depth image in \<open>unsigned short\<close> cells.  C \<open>int\<close> variables are
  modelled as \<open>int\<close> and every store into a narrower cell is written as the truncation
  \<open>word_of_int\<close> that C performs.  The two agree as long as no \<open>int\<close> operation
  overflows 32 bits, which is the case for everything computed from bytes, from units in
  1..9 and from the loop bounds, and in \<open>flywheel\<close> for \<open>fi = 0\<close>; the counters
  \<open>fresh\<close> and \<open>frame\<close> would need \<open>2^31\<close> frames to overflow and are taken as
  unbounded.  A read outside an array is undefined in C and unspecified here (\<open>!\<close>);
  the properties below only read inside.
\<close>

type_synonym byte = "8 word"
type_synonym ushort = "16 word"

subsection \<open>Lookup table for 8 bit to 16 bit conversion\<close>

text \<open>
  \<open>build_lut\<close> fills \<open>norm[u - 1][pel] = (unsigned short)(4 * u * pel)\<close> for
  \<open>u = 1..9\<close> and \<open>pel = 0..255\<close>.
\<close>

definition build_lut :: "ushort list list" where
  "build_lut =
     map (\<lambda>u. map (\<lambda>pel. (word_of_int (4 * int u * int pel) :: ushort)) [0..<256]) [1..<10]"

subsection \<open>Masking and conversion to 16 bit\<close>

text \<open>
  \<open>reformat\<close> walks the 10000 pixels of \<open>raw\<close>, \<open>avg\<close> and \<open>var\<close> and writes the
  16 bit image into the \<open>fill\<close> buffer; \<open>sc = norm[unit - 1]\<close>.  The comparison
  \<open>*v > vlim\<close> promotes the byte to \<open>int\<close>.
\<close>

definition reformat ::
  "ushort list list \<Rightarrow> int \<Rightarrow> int \<Rightarrow> byte list \<Rightarrow> byte list \<Rightarrow> byte list \<Rightarrow> ushort list" where
  "reformat norm unit vlim raw avg var =
     (let sc = norm ! nat (unit - 1)
      in map (\<lambda>i. if uint (raw ! i) \<ge> 255 \<or> uint (avg ! i) \<ge> 255 \<or> uint (var ! i) > vlim
                   then 65535
                   else sc ! unat (avg ! i))
           [0..<10000])"

subsection \<open>Unit re-scaling of the temporal filter state\<close>

text \<open>
  C division of \<open>int\<close> truncates towards zero.
\<close>

definition cdiv :: "int \<Rightarrow> int \<Rightarrow> int" where
  "cdiv a b = (if (a < 0) = (b < 0) then \<bar>a\<bar> div \<bar>b\<bar> else - (\<bar>a\<bar> div \<bar>b\<bar>))"

text \<open>
  One pass of \<open>depth_step\<close> over an image: the table \<open>sc[i] = (f * i + 128) >> 8\<close>
  for \<open>i = 0..255\<close> and then \<open>*p = sc[*p]\<close> for each of the 10000 pixels.  The table
  holds \<open>int\<close>, the pixel is an \<open>unsigned char\<close>, so the store keeps the low 8 bits.
\<close>

definition rescale :: "int \<Rightarrow> byte list \<Rightarrow> byte list" where
  "rescale f img =
     (let sc = map (\<lambda>i. (f * int i + 128) div 256) [0..<256]
      in map (\<lambda>i. (word_of_int (sc ! unat (img ! i)) :: byte)) [0..<10000])"

text \<open>
  \<open>depth_step\<close> rescales \<open>avg\<close> with \<open>f = (unit << 8) / pend\<close>, \<open>var\<close> with
  \<open>f = ((unit * unit) << 8) / (pend * pend)\<close>, and sets \<open>unit = pend\<close>.  The result
  is the new \<open>(avg, var, unit)\<close>.
\<close>

definition depth_step ::
  "int \<Rightarrow> int \<Rightarrow> byte list \<Rightarrow> byte list \<Rightarrow> byte list \<times> byte list \<times> int" where
  "depth_step unit pend avg var =
     (let f = cdiv (unit * 256) pend;
          avg' = rescale f avg;
          f = cdiv ((unit * unit) * 256) (pend * pend);
          var' = rescale f var
      in (avg', var', pend))"

subsection \<open>Serial transport\<close>

text \<open>
  The port is opened with \<open>VMIN = 0\<close> and \<open>VTIME = 10\<close>: \<open>read(ser, buf, n)\<close> returns
  as soon as bytes are there, at most \<open>n\<close> of them, and returns 0 after one second
  without any.  The transport is the list of bursts still to arrive: a non-empty burst
  is handed out front first, an empty burst is one timeout, and the empty list is the
  end of the stream.  \<open>read\<close> returns the bytes stored into the buffer (their number
  is the return code of the C call) and the transport left.
\<close>

type_synonym transport = "byte list list"

definition read :: "transport \<Rightarrow> nat \<Rightarrow> byte list \<times> transport" where
  "read t n =
     (case t of
        [] \<Rightarrow> ([], [])
      | c # cs \<Rightarrow> if length c \<le> n then (c, cs) else (take n c, drop n c # cs))"

text \<open>\<open>read(ser, &b, 1)\<close>: \<open>None\<close> when the call returns 0 or less.\<close>

definition read1 :: "transport \<Rightarrow> byte option \<times> transport" where
  "read1 t =
     (case read t 1 of (bs, t') \<Rightarrow> (case bs of [] \<Rightarrow> None | b # _ \<Rightarrow> Some b, t'))"

text \<open>\<open>k\<close> successive one byte reads, all of which deliver a byte.\<close>

fun read_bytes :: "nat \<Rightarrow> transport \<Rightarrow> (byte list \<times> transport) option" where
  "read_bytes 0 t = Some ([], t)"
| "read_bytes (Suc k) t =
     (case read1 t of
        (None, _) \<Rightarrow> None
      | (Some b, t') \<Rightarrow>
          (case read_bytes k t' of None \<Rightarrow> None | Some (bs, t'') \<Rightarrow> Some (b # bs, t'')))"

subsection \<open>Packet synchronisation\<close>

text \<open>
  The search loop of \<open>sync\<close>.  Both ways of giving up return 0 in the source; the model
  keeps them apart (\<open>Gibberish\<close> for \<open>start++ > 20000\<close>, \<open>ReadFail\<close> for a read that
  returns 0 or less) and \<open>Found\<close> carries the value of \<open>start\<close> at the \<open>break\<close>.
  Each \<open>continue\<close> goes back to the test of \<open>start\<close>, which has been incremented once
  in this round.
\<close>

datatype sync_result = Found int | Gibberish | ReadFail

function sync_loop :: "transport \<Rightarrow> int \<Rightarrow> sync_result \<times> transport" where
  "sync_loop t start =
     (if start > 20000 then (Gibberish, t)
      else (case read1 t of
        (None, t1) \<Rightarrow> (ReadFail, t1)
      | (Some b, t1) \<Rightarrow>
          if b \<noteq> 0x00 then sync_loop t1 (start + 1)
          else (case read1 t1 of
            (None, t2) \<Rightarrow> (ReadFail, t2)
          | (Some b, t2) \<Rightarrow>
              if b \<noteq> 0xFF then sync_loop t2 (start + 1)
              else (case read1 t2 of
                (None, t3) \<Rightarrow> (ReadFail, t3)
              | (Some b, t3) \<Rightarrow>
                  if b \<noteq> 0x20 then sync_loop t3 (start + 1)
                  else (case read1 t3 of
                    (None, t4) \<Rightarrow> (ReadFail, t4)
                  | (Some b, t4) \<Rightarrow>
                      if b = 0x27 then (Found (start + 1), t4)
                      else sync_loop t4 (start + 1))))))"
  by pat_completeness auto
termination
  by (relation "measure (\<lambda>(t, start). nat (20001 - start))") auto

declare sync_loop.simps [simp del]

text \<open>
  \<open>sync\<close>: the return code, the filter state \<open>(avg, var, unit)\<close> after the call and
  the transport left.  After the loop, \<open>depth_step\<close> runs if \<open>start > 1\<close> and
  \<open>frame > 2\<close>.
\<close>

definition sync ::
  "transport \<Rightarrow> int \<Rightarrow> int \<Rightarrow> int \<Rightarrow> byte list \<Rightarrow> byte list
     \<Rightarrow> int \<times> (byte list \<times> byte list \<times> int) \<times> transport" where
  "sync t frame unit pend avg var =
     (case sync_loop t 0 of
        (Found start, t') \<Rightarrow>
          (1, (if start > 1 \<and> frame > 2 then depth_step unit pend avg var
               else (avg, var, unit)), t')
      | (_, t') \<Rightarrow> (0, (avg, var, unit), t'))"

subsection \<open>Packet assembly\<close>

text \<open>
  \<open>fill_raw\<close> reads into \<open>pkt + n\<close> at most \<open>10018 - n\<close> bytes, starting with
  \<open>n = 0\<close>, until \<open>n \<ge> 10018\<close>.  The result is the return code, the packet buffer
  and the transport left.  The image \<open>raw\<close> is \<open>pkt + 16\<close>.
\<close>

function fill_raw_loop :: "transport \<Rightarrow> byte list \<Rightarrow> nat \<Rightarrow> int \<times> byte list \<times> transport" where
  "fill_raw_loop t pkt n =
     (case read t (10018 - n) of (bs, t') \<Rightarrow>
        let rc = length bs in
        if rc \<le> 0 then (0, pkt, t')
        else let pkt' = take n pkt @ bs @ drop (n + rc) pkt; n' = n + rc in
             if n' \<ge> 10018 then (1, pkt', t') else fill_raw_loop t' pkt' n')"
  by pat_completeness auto
termination
  by (relation "measure (\<lambda>(t, pkt, n). 10018 - n)") (auto simp: neq_Nil_conv)

declare fill_raw_loop.simps [simp del]

definition fill_raw :: "transport \<Rightarrow> byte list \<Rightarrow> int \<times> byte list \<times> transport" where
  "fill_raw t pkt = fill_raw_loop t pkt 0"

definition raw_of :: "byte list \<Rightarrow> byte list" where
  "raw_of pkt = drop 16 pkt"

subsection \<open>Median filter\<close>

text \<open>
  \<open>median5x5\<close> keeps a histogram \<open>vals\<close> of the 5x5 window, the lowest occupied bin
  \<open>bot\<close> (written \<open>bot'\<close> here) and the bins \<open>lowest[0..5]\<close> met by the last scan.
  Row offsets \<open>y\<close> and \<open>now\<close> are byte offsets (multiples of 100) as in the source.
\<close>

definition clamp_row :: "int \<Rightarrow> int" where
  "clamp_row now = (if now \<le> 0 then 0 else if now < 9900 then now else 9900)"

text \<open>The values of \<open>j\<close> in \<open>for (j = -200; j < 300; j += 100)\<close>.\<close>

definition rows5 :: "int list" where
  "rows5 = [- 200, - 100, 0, 100, 200]"

text \<open>One round of the set-up loop for the left edge: three copies of \<open>s0\<close>, then \<open>s1\<close>, \<open>s2\<close>.\<close>

definition seed_row :: "byte list \<Rightarrow> int \<Rightarrow> int list \<times> int \<Rightarrow> int \<Rightarrow> int list \<times> int" where
  "seed_row s y hb j =
     (case hb of (vals, bot') \<Rightarrow>
        let now = clamp_row (y + j);
            pel = uint (s ! nat now);
            bot' = (if pel < bot' then pel else bot');
            vals = vals[nat pel := vals ! nat pel + 3];
            pel = uint (s ! nat (now + 1));
            bot' = (if pel < bot' then pel else bot');
            vals = vals[nat pel := vals ! nat pel + 1];
            pel = uint (s ! nat (now + 2));
            bot' = (if pel < bot' then pel else bot');
            vals = vals[nat pel := vals ! nat pel + 1]
        in (vals, bot'))"

text \<open>
  The scan \<open>for (hi = bot; hi < 256; hi++)\<close> for the bin of the 13th sorted value;
  the result is \<open>hi\<close> at the end of the loop and the updated \<open>lowest\<close>.
\<close>

function scan :: "int list \<Rightarrow> int \<Rightarrow> int \<Rightarrow> int \<Rightarrow> int list \<Rightarrow> int \<times> int list" where
  "scan vals hi sub cnt lowest =
     (if hi < 256 then
        (let v = vals ! nat hi in
         if v > 0 then
           (let lowest' = (if cnt < 6 then lowest[nat cnt := hi] else lowest);
                cnt' = (if cnt < 6 then cnt + 1 else cnt);
                sub' = sub + v
            in if sub' \<ge> 13 then (hi, lowest') else scan vals (hi + 1) sub' cnt' lowest')
         else scan vals (hi + 1) sub cnt lowest)
      else (hi, lowest))"
  by pat_completeness auto
termination
  by (relation "measure (\<lambda>(vals, hi, sub, cnt, lowest). nat (256 - hi))") auto

declare scan.simps [simp del]

text \<open>One round of the loop that subtracts the old column on the left.\<close>

definition sub_col ::
  "byte list \<Rightarrow> int \<Rightarrow> int \<Rightarrow> int list \<Rightarrow> int list \<times> int \<times> int \<Rightarrow> int
     \<Rightarrow> int list \<times> int \<times> int" where
  "sub_col s y nowx lowest st j =
     (case st of (vals, bot', cnt) \<Rightarrow>
        let now = clamp_row (y + j);
            pel = uint (s ! nat (now + nowx));
            replace = (pel = bot' \<and> vals ! nat pel \<le> 1);
            cnt = (if replace then cnt + 1 else cnt);
            bot' = (if replace then lowest ! nat cnt else bot');
            vals = vals[nat pel := vals ! nat pel - 1]
        in (vals, bot', cnt))"

text \<open>One round of the loop that adds the next column on the right.\<close>

definition add_col ::
  "byte list \<Rightarrow> int \<Rightarrow> int \<Rightarrow> int list \<times> int \<Rightarrow> int \<Rightarrow> int list \<times> int" where
  "add_col s y nowx hb j =
     (case hb of (vals, bot') \<Rightarrow>
        let now = clamp_row (y + j);
            pel = uint (s ! nat (now + nowx));
            bot' = (if pel < bot' then pel else bot');
            vals = vals[nat pel := vals ! nat pel + 1]
        in (vals, bot'))"

text \<open>
  The body of \<open>for (x = 0; x < 100; x++, d++)\<close>: the pointer \<open>d\<close> is at \<open>med + y + x\<close>,
  the store \<open>*d = (unsigned char) hi\<close> keeps the low 8 bits.
\<close>

definition median_pixel ::
  "byte list \<Rightarrow> int \<Rightarrow> int list \<times> int \<times> int list \<times> byte list \<Rightarrow> int
     \<Rightarrow> int list \<times> int \<times> int list \<times> byte list" where
  "median_pixel s y st x =
     (case st of (vals, bot', lowest, med) \<Rightarrow>
        (case scan vals bot' 0 0 lowest of (hi, lowest) \<Rightarrow>
           let med = med[nat (y + x) := word_of_int hi] in
           if x \<ge> 99 then (vals, bot', lowest, med)
           else
             (let nowx = x - 2;
                  nowx = (if nowx \<le> 0 then 0 else nowx)
              in case foldl (sub_col s y nowx lowest) (vals, bot', 0) rows5 of
                (vals, bot', cnt) \<Rightarrow>
                  let nowx = x + 3;
                      nowx = (if nowx < 99 then nowx else 99)
                  in case foldl (add_col s y nowx) (vals, bot') rows5 of
                    (vals, bot') \<Rightarrow> (vals, bot', lowest, med))))"

text \<open>The body of \<open>for (y = 0; y < 10000; y += 100)\<close>: clear, seed, then the 100 pixels.\<close>

definition median_row ::
  "byte list \<Rightarrow> int list \<times> byte list \<Rightarrow> int \<Rightarrow> int list \<times> byte list" where
  "median_row s st y =
     (case st of (lowest, med) \<Rightarrow>
        (case foldl (seed_row s y) (replicate 256 0, 255) rows5 of (vals, bot') \<Rightarrow>
           (case foldl (median_pixel s y) (vals, bot', lowest, med) (map int [0..<100]) of
              (vals, bot', lowest, med) \<Rightarrow> (lowest, med))))"

text \<open>
  \<open>median5x5\<close> on the image \<open>s = raw\<close>, from the contents of the member arrays
  \<open>lowest\<close> and \<open>med\<close> left by earlier calls.
\<close>

definition median5x5 :: "byte list \<Rightarrow> int list \<Rightarrow> byte list \<Rightarrow> int list \<times> byte list" where
  "median5x5 s lowest med =
     foldl (median_row s) (lowest, med) (map (\<lambda>r. 100 * int r) [0..<100])"

subsection \<open>Temporal filter\<close>

definition clamp_byte :: "int \<Rightarrow> int" where
  "clamp_byte val = (if val \<le> 0 then 0 else if val < 255 then val else 255)"

text \<open>
  The loop body of \<open>flywheel\<close> for one pixel, with \<open>fi = (int)(256.0 * f0 + 0.5)\<close> and
  \<open>mn = (int)(256.0 * nv + 0.5)\<close> given as integers; \<open><< 8\<close> is a multiplication by
  256 and \<open>>> n\<close> on \<open>int\<close> the arithmetic shift, the floor of the division by \<open>2 ^ n\<close>.
\<close>

definition fly_pixel :: "int \<Rightarrow> int \<Rightarrow> byte \<Rightarrow> byte \<Rightarrow> byte \<Rightarrow> byte \<times> byte" where
  "fly_pixel fi mn m p v =
     (let cfi = 256 - fi;
          diff = uint m - uint p;
          vm = cfi * uint v + fi * diff * diff;
          k = cdiv (vm * 256) (vm + mn);
          val = (uint p * 256 + k * diff + 128) div 256;
          p' = word_of_int (clamp_byte val);
          val = ((256 - k) * (vm div 2) + 16384) div 32768;
          v' = word_of_int (clamp_byte val)
      in (p', v'))"

text \<open>
  \<open>flywheel\<close> on the state \<open>(avg, var)\<close>: on the first frame \<open>memcpy(p, m, 10000)\<close> and
  \<open>memset(v, 0, 10000)\<close> into the 10000 byte arrays, later the loop over 10000 pixels.
\<close>

definition flywheel ::
  "int \<Rightarrow> int \<Rightarrow> int \<Rightarrow> byte list \<Rightarrow> byte list \<times> byte list \<Rightarrow> byte list \<times> byte list" where
  "flywheel fi mn frame med st =
     (case st of (avg, var) \<Rightarrow>
        if frame \<le> 0 then (take 10000 med, replicate 10000 0)
        else (map (\<lambda>i. fst (fly_pixel fi mn (med ! i) (avg ! i) (var ! i))) [0..<10000],
              map (\<lambda>i. snd (fly_pixel fi mn (med ! i) (avg ! i) (var ! i))) [0..<10000]))"

text \<open>
  The calls of \<open>flywheel\<close> that \<open>main_loop\<close> makes over \<open>n\<close> frames when the median
  image is the same \<open>med\<close> on each of them: \<open>swap_bufs\<close> increments \<open>frame\<close> after each.
\<close>

fun flywheel_frames ::
  "int \<Rightarrow> int \<Rightarrow> byte list \<Rightarrow> nat \<Rightarrow> int \<Rightarrow> byte list \<times> byte list \<Rightarrow> byte list \<times> byte list" where
  "flywheel_frames fi mn med 0 frame st = st"
| "flywheel_frames fi mn med (Suc n) frame st =
     flywheel_frames fi mn med n (frame + 1) (flywheel fi mn frame med st)"

subsection \<open>Rotating output buffers\<close>

text \<open>
  The three storage arrays \<open>d0\<close>, \<open>d1\<close>, \<open>d2\<close> and the pointers \<open>fill\<close>, \<open>done\<close>
  (written \<open>done'\<close>) and \<open>lock\<close> into them, \<open>None\<close> for \<open>NULL\<close>; with them the
  counters and the health flag that \<open>Start\<close>, \<open>swap_bufs\<close> and \<open>Range\<close> touch.
\<close>

datatype buf = D0 | D1 | D2

record rotor =
  fill :: "buf option"
  done' :: "buf option"
  lock :: "buf option"
  fresh :: int
  frame :: int
  ok :: int

text \<open>\<open>Start\<close>, given the return code of \<open>open_usb\<close>.\<close>

definition Start :: "int \<Rightarrow> rotor \<Rightarrow> rotor" where
  "Start open_usb s =
     (if open_usb \<le> 0 then s\<lparr>ok := - 1\<rparr>
      else s\<lparr>fill := Some D0, done' := None, lock := None, fresh := - 2, ok := 1\<rparr>)"

definition swap_bufs :: "rotor \<Rightarrow> rotor" where
  "swap_bufs s =
     (let s = s\<lparr>done' := fill s\<rparr>;
          s = s\<lparr>fresh := fresh s + 1\<rparr>;
          s = (if fill s = Some D0
               then s\<lparr>fill := (if lock s \<noteq> Some D1 then Some D1 else Some D2)\<rparr>
               else if fill s = Some D1
               then s\<lparr>fill := (if lock s \<noteq> Some D0 then Some D0 else Some D2)\<rparr>
               else s\<lparr>fill := (if lock s \<noteq> Some D0 then Some D0 else Some D1)\<rparr>)
      in s\<lparr>frame := frame s + 1\<rparr>)"

text \<open>
  The polling loop of \<open>Range\<close>.  It runs on the consumer thread while the worker
  publishes: \<open>pubs k\<close> is the number of \<open>swap_bufs\<close> calls the worker completes
  during the \<open>k\<close>-th \<open>usleep(1000)\<close>.  \<open>wait\<close> is the local counter of the source,
  \<open>slept\<close> counts the sleeps.  The result tells whether the loop was left with
  \<open>fresh > 0\<close>.
\<close>

function Range_wait ::
  "(nat \<Rightarrow> nat) \<Rightarrow> int \<Rightarrow> int \<Rightarrow> nat \<Rightarrow> rotor \<Rightarrow> bool \<times> nat \<times> rotor" where
  "Range_wait pubs block wait slept s =
     (if fresh s \<le> 0 then
        (if block \<le> 0 then (False, slept, s)
         else if wait > 500 then (False, slept, s)
         else Range_wait pubs block (wait + 1) (slept + 1) ((swap_bufs ^^ pubs slept) s))
      else (True, slept, s))"
  by pat_completeness auto
termination
  by (relation "measure (\<lambda>(pubs, block, wait, slept, s). nat (501 - wait))") auto

declare Range_wait.simps [simp del]

text \<open>\<open>Range\<close>: the pointer returned, the number of sleeps made, and the state.\<close>

definition Range :: "(nat \<Rightarrow> nat) \<Rightarrow> int \<Rightarrow> rotor \<Rightarrow> buf option \<times> nat \<times> rotor" where
  "Range pubs block s =
     (if ok s \<le> 0 then (None, 0, s)
      else (case Range_wait pubs block 0 0 s of
              (False, slept, s1) \<Rightarrow> (None, slept, s1)
            | (True, slept, s1) \<Rightarrow>
                (let s2 = s1\<lparr>lock := done' s1\<rparr>;
                     s2 = s2\<lparr>fresh := 0\<rparr>
                 in (lock s2, slept, s2))))"

text \<open>
  Interleavings of the two threads after \<open>Start\<close>: the worker publishes, the consumer
  calls \<open>Range\<close> (during whose sleeps the worker may publish again).
\<close>

datatype event = Publish | Consume int "nat \<Rightarrow> nat"

fun step :: "rotor \<Rightarrow> event \<Rightarrow> rotor" where
  "step s Publish = swap_bufs s"
| "step s (Consume block pubs) = snd (snd (Range pubs block s))"

definition run :: "rotor \<Rightarrow> event list \<Rightarrow> rotor" where
  "run s evs = foldl step s evs"

text \<open>How many of the three pointers name the array \<open>b\<close>.\<close>

definition uses :: "rotor \<Rightarrow> buf \<Rightarrow> nat" where
  "uses s b = count_list [fill s, done' s, lock s] (Some b)"

text \<open>The invariant of the three pointers: the worker's array is nobody else's.\<close>

definition rotor_inv :: "rotor \<Rightarrow> bool" where
  "rotor_inv s \<longleftrightarrow> fill s \<noteq> None \<and> fill s \<noteq> lock s \<and> fill s \<noteq> done' s"

text \<open>A worker that publishes nothing during the sleeps, and the state left by the constructor.\<close>

definition idle :: "nat \<Rightarrow> nat" where
  "idle k = 0"

definition closed :: rotor where
  "closed = \<lparr>fill = None, done' = None, lock = None, fresh = 0, frame = 0, ok = - 1\<rparr>"

text \<open>
  One round of the search loop of \<open>sync\<close> on its own: the sentinel was read (\<open>Hit\<close>),
  a byte did not match (\<open>Skip\<close>, the \<open>continue\<close>), or a read failed (\<open>Fail\<close>).
\<close>

datatype round = Hit transport | Skip transport | Fail transport

definition sync_round :: "transport \<Rightarrow> round" where
  "sync_round t =
     (case read1 t of
        (None, t1) \<Rightarrow> Fail t1
      | (Some b, t1) \<Rightarrow>
          if b \<noteq> 0x00 then Skip t1
          else (case read1 t1 of
            (None, t2) \<Rightarrow> Fail t2
          | (Some b, t2) \<Rightarrow>
              if b \<noteq> 0xFF then Skip t2
              else (case read1 t2 of
                (None, t3) \<Rightarrow> Fail t3
              | (Some b, t3) \<Rightarrow>
                  if b \<noteq> 0x20 then Skip t3
                  else (case read1 t3 of
                    (None, t4) \<Rightarrow> Fail t4
                  | (Some b, t4) \<Rightarrow>
                      if b = 0x27 then Hit t4 else Skip t4))))"

text \<open>
  Test streams: 5001 bursts \<open>00 FF 20 00\<close>, which match the first three bytes of the
  sentinel and then fail, and the 10018 bytes of a packet after its sentinel.
\<close>

definition junk :: transport where
  "junk = replicate 5001 [0, 255, 32, 0]"

definition frame_bytes :: "byte list" where
  "frame_bytes = replicate 10018 1"

text \<open>
  For the median of a uniform image: the histogram with \<open>n\<close> samples in the bin of
  \<open>c\<close> and none elsewhere, and an output image whose first \<open>k\<close> pixels are \<open>c\<close>.
\<close>

definition uhist :: "byte \<Rightarrow> int \<Rightarrow> int list" where
  "uhist c n = (replicate 256 0)[unat c := n]"

definition filled :: "byte \<Rightarrow> nat \<Rightarrow> byte list \<Rightarrow> bool" where
  "filled c k med \<longleftrightarrow> length med = 10000 \<and> (\<forall>i<k. med ! i = c)"

section \<open>Properties of the lookup table and of reformat\<close>

lemma build_lut_nth:
  assumes "1 \<le> u" "u \<le> 9" "p < 256"
  shows "build_lut ! (u - 1) ! p = (word_of_int (4 * int u * int p) :: ushort)"
proof -
  have "u - 1 < length [1..<10]" using assms by simp
  moreover have "[1..<10] ! (u - 1) = u" using assms by (simp add: nth_upt)
  ultimately show ?thesis using assms by (simp add: build_lut_def del: upt_Suc)
qed

lemma unat_ushort_of_nat: "n < 65536 \<Longrightarrow> unat (word_of_int (int n) :: ushort) = n"
  by (simp add: unat_of_nat)

lemma lut_unat:
  assumes "1 \<le> u" "u \<le> 9" "p < 256"
  shows "unat (build_lut ! (u - 1) ! p) = 4 * u * p"
proof -
  have "4 * u * p \<le> 4 * 9 * 255"
    using assms by (intro mult_le_mono) auto
  then have b: "4 * u * p < 65536" by simp
  have "4 * int u * int p = int (4 * u * p)" by simp
  then have "build_lut ! (u - 1) ! p = (word_of_int (int (4 * u * p)) :: ushort)"
    using assms by (simp only: build_lut_nth)
  then show ?thesis
    using b by (simp only: unat_ushort_of_nat)
qed

lemma unat_byte_less: "unat (b :: byte) < 256"
  using unsigned_less [of b, where ?'a = nat] by simp

lemma reformat_nth:
  assumes "i < 10000"
  shows "reformat norm unit vlim raw avg var ! i =
           (if uint (raw ! i) \<ge> 255 \<or> uint (avg ! i) \<ge> 255 \<or> uint (var ! i) > vlim
            then 65535 else norm ! nat (unit - 1) ! unat (avg ! i))"
  using assms by (simp add: reformat_def del: upt_Suc)

lemma uint_byte_ge_255: "uint (b :: byte) \<ge> 255 \<longleftrightarrow> b = 255"
proof
  assume "uint b \<ge> 255"
  moreover have "uint b < 256" using uint_bounded [of b] by simp
  ultimately have "uint b = uint (255 :: byte)" by simp
  then show "b = 255" by (simp only: word_uint_eq_iff [symmetric])
next
  assume "b = 255" then show "uint b \<ge> 255" by simp
qed

text \<open>
  Claim C1.  For every pixel index \<open>i\<close> in 0..9999 the 16 bit pixel written by
  \<open>reformat\<close> is 65535 if the raw sample is 255, or the filtered mean is 255, or the
  variance exceeds \<open>vlim\<close>; otherwise it is the table entry \<open>norm[unit - 1][avg[i]]\<close>
  of the table made by \<open>build_lut\<close>, whose value is \<open>4 * unit * avg[i]\<close> (the unit
  is one of 1..9, the range the auto-ranging keeps it in).
\<close>

theorem reformat_pixel:
  assumes "i < 10000" and "1 \<le> unit" and "unit \<le> 9"
  shows "reformat build_lut unit vlim raw avg var ! i =
           (if raw ! i = 255 \<or> avg ! i = 255 \<or> uint (var ! i) > vlim
            then 65535
            else build_lut ! nat (unit - 1) ! unat (avg ! i))
         \<and> uint (build_lut ! nat (unit - 1) ! unat (avg ! i)) = 4 * unit * uint (avg ! i)"
proof -
  have u: "1 \<le> nat unit" "nat unit \<le> 9" "nat (unit - 1) = nat unit - 1"
    using assms by auto
  have "unat (build_lut ! (nat unit - 1) ! unat (avg ! i)) = 4 * nat unit * unat (avg ! i)"
    using u unat_byte_less by (intro lut_unat) auto
  then have "int (unat (build_lut ! nat (unit - 1) ! unat (avg ! i)))
               = int (4 * nat unit * unat (avg ! i))"
    using u by simp
  then have "uint (build_lut ! nat (unit - 1) ! unat (avg ! i)) = 4 * unit * uint (avg ! i)"
    using assms by simp
  then show ?thesis
    using assms by (simp add: reformat_nth uint_byte_ge_255)
qed

theorem reformat_pixel_witness:
  "reformat build_lut 2 32 (replicate 10000 50) (replicate 10000 50) (replicate 10000 0) ! 7
     = build_lut ! 1 ! 50
   \<and> uint (build_lut ! 1 ! 50) = 400"
  using reformat_pixel [of 7 2 32 "replicate 10000 50" "replicate 10000 50" "replicate 10000 0"]
  by simp

lemma lut_below_sentinel:
  assumes "1 \<le> u" and "u \<le> 9" and "p \<le> 254"
  shows "unat (build_lut ! (u - 1) ! p) = 4 * u * p"
    and "unat (build_lut ! (u - 1) ! p) \<le> 9144"
    and "build_lut ! (u - 1) ! p \<noteq> 65535"
proof -
  show e: "unat (build_lut ! (u - 1) ! p) = 4 * u * p"
    using assms by (intro lut_unat) auto
  have "4 * u * p \<le> 4 * 9 * 254"
    using assms by (intro mult_le_mono) auto
  then show b: "unat (build_lut ! (u - 1) ! p) \<le> 9144" using e by simp
  show "build_lut ! (u - 1) ! p \<noteq> 65535"
  proof
    assume "build_lut ! (u - 1) ! p = 65535"
    then have "unat (build_lut ! (u - 1) ! p) = unat (65535 :: ushort)" by simp
    then show False using b by simp
  qed
qed

lemma byte_not_255: "(b :: byte) \<noteq> 255 \<Longrightarrow> unat b \<le> 254"
proof -
  assume a: "b \<noteq> 255"
  have "unat b \<noteq> unat (255 :: byte)"
    using a by (simp only: word_unat_eq_iff [symmetric]) simp
  then show ?thesis using unat_byte_less [of b] by simp
qed

text \<open>
  Claim C9.  For every unit \<open>u\<close> in 1..9 and every mean value \<open>p\<close> in 0..254 the
  table entry is \<open>4 * u * p\<close>, at most 9144 and so never 65535; hence a pixel written
  by \<open>reformat\<close> is 65535 exactly when it was masked (raw sample 255, mean 255 or
  variance above \<open>vlim\<close>).
\<close>

theorem sentinel_only_masked:
  assumes "1 \<le> u" and "u \<le> 9" and "p \<le> 254" and "i < 10000" and "1 \<le> unit" and "unit \<le> 9"
  shows "unat (build_lut ! (u - 1) ! p) = 4 * u * p
         \<and> unat (build_lut ! (u - 1) ! p) \<le> 9144
         \<and> build_lut ! (u - 1) ! p \<noteq> 65535
         \<and> (reformat build_lut unit vlim raw avg var ! i = 65535
              \<longleftrightarrow> raw ! i = 255 \<or> avg ! i = 255 \<or> uint (var ! i) > vlim)"
proof -
  have m: "reformat build_lut unit vlim raw avg var ! i = 65535
              \<longleftrightarrow> raw ! i = 255 \<or> avg ! i = 255 \<or> uint (var ! i) > vlim"
  proof (cases "raw ! i = 255 \<or> avg ! i = 255 \<or> uint (var ! i) > vlim")
    case True
    then show ?thesis using assms(4) by (auto simp add: reformat_nth uint_byte_ge_255)
  next
    case False
    then have "unat (avg ! i) \<le> 254" by (simp add: byte_not_255)
    moreover have u: "1 \<le> nat unit" "nat unit \<le> 9" "nat (unit - 1) = nat unit - 1"
      using assms by auto
    ultimately have "build_lut ! (nat unit - 1) ! unat (avg ! i) \<noteq> 65535"
      by (intro lut_below_sentinel(3))
    then have "build_lut ! nat (unit - 1) ! unat (avg ! i) \<noteq> 65535"
      using u by simp
    then show ?thesis using False assms(4) by (simp add: reformat_nth uint_byte_ge_255)
  qed
  show ?thesis using lut_below_sentinel [OF assms(1-3)] m by simp
qed

theorem sentinel_only_masked_witness:
  "unat (build_lut ! (9 - 1) ! 254) = 4 * 9 * 254
   \<and> unat (build_lut ! (9 - 1) ! 254) \<le> 9144
   \<and> build_lut ! (9 - 1) ! 254 \<noteq> 65535
   \<and> (reformat build_lut 9 32 (replicate 10000 254) (replicate 10000 254) (replicate 10000 33) ! 9999
         = 65535)"
  using sentinel_only_masked [of 9 254 9999 9 32 "replicate 10000 254" "replicate 10000 254"
      "replicate 10000 33"]
  by simp

section \<open>Properties of the unit re-scaler\<close>

lemma rescale_256:
  assumes "length img = 10000"
  shows "rescale 256 img = img"
proof -
  have sc: "map (\<lambda>i. (256 * int i + 128) div 256) [0..<256] ! unat b = uint b" for b :: byte
  proof -
    have "(256 * int (unat b) + 128) div 256 = int (unat b)" by simp
    then show ?thesis using unat_byte_less [of b] by (simp del: upt_Suc)
  qed
  have "rescale 256 img = map (\<lambda>i. img ! i) [0..<10000]"
    unfolding rescale_def Let_def by (simp only: sc word_of_int_uint)
  also have "\<dots> = img"
    using assms map_nth [of img] by simp
  finally show ?thesis .
qed

lemma cdiv_self: "0 < a \<Longrightarrow> cdiv (a * 256) a = 256"
  by (simp add: cdiv_def)

lemma depth_step_same:
  assumes "1 \<le> unit" and "length avg = 10000" and "length var = 10000"
  shows "depth_step unit unit avg var = (avg, var, unit)"
proof -
  have "cdiv (unit * 256) unit = 256" using assms by (simp add: cdiv_self)
  moreover have "cdiv (unit * unit * 256) (unit * unit) = 256"
    using assms cdiv_self [of "unit * unit"] by simp
  ultimately show ?thesis
    using assms by (simp add: depth_step_def rescale_256)
qed

text \<open>
  Claim C10.  When \<open>depth_step\<close> runs with \<open>pend = unit\<close> both scale ratios are exactly
  256 and the mean image, the variance image and the unit are left as they were.
  \<open>sync\<close> runs it whenever it had to skip bytes (\<open>start > 1\<close>) after the warm-up
  (\<open>frame > 2\<close>), whether or not a unit command is outstanding, and so leaves the
  filter state unchanged in that case.
\<close>

theorem depth_step_idle:
  assumes "1 \<le> unit" and "unit \<le> 9" and "length avg = 10000" and "length var = 10000"
  shows "cdiv (unit * 256) unit = 256
         \<and> cdiv ((unit * unit) * 256) (unit * unit) = 256
         \<and> depth_step unit unit avg var = (avg, var, unit)
         \<and> (sync_loop t 0 = (Found start, t') \<longrightarrow> 1 < start \<longrightarrow> 2 < frm \<longrightarrow>
              sync t frm unit unit avg var = (1, depth_step unit unit avg var, t'))
         \<and> fst (snd (sync t frm unit unit avg var)) = (avg, var, unit)"
proof -
  have a: "cdiv (unit * 256) unit = 256" using assms by (simp add: cdiv_self)
  have b: "cdiv ((unit * unit) * 256) (unit * unit) = 256"
    using assms cdiv_self [of "unit * unit"] by simp
  have c: "depth_step unit unit avg var = (avg, var, unit)"
    using assms by (simp add: depth_step_same)
  have d: "sync_loop t 0 = (Found start, t') \<longrightarrow> 1 < start \<longrightarrow> 2 < frm \<longrightarrow>
              sync t frm unit unit avg var = (1, depth_step unit unit avg var, t')"
    by (simp add: sync_def)
  have e: "fst (snd (sync t frm unit unit avg var)) = (avg, var, unit)"
    by (simp add: sync_def c split: prod.splits sync_result.splits)
  show ?thesis using a b c d e by simp
qed

lemma sync_loop_ex: "sync_loop [[7, 0, 255, 32, 39, 1]] 0 = (Found 2, [[1]])"
  by code_simp

theorem depth_step_idle_witness:
  "depth_step 3 3 (replicate 10000 200) (replicate 10000 9) = (replicate 10000 200, replicate 10000 9, 3)
   \<and> sync [[7, 0, 255, 32, 39, 1]] 5 3 3 (replicate 10000 200) (replicate 10000 9)
       = (1, depth_step 3 3 (replicate 10000 200) (replicate 10000 9), [[1]])"
  using depth_step_idle [of 3 "replicate 10000 200" "replicate 10000 9" "[[7, 0, 255, 32, 39, 1]]"
      2 "[[1]]" 5] sync_loop_ex
  by simp

text \<open>
  What \<open>depth_step\<close> stores in each pixel: the low 8 bits of the rounded product.  For a
  ratio of at most 256 (the new unit is not finer than the old one) that is the value
  itself, which is below 256.
\<close>

lemma rescale_nth:
  assumes "i < 10000"
  shows "rescale f img ! i = word_of_int ((f * uint (img ! i) + 128) div 256)"
proof -
  have "map (\<lambda>k. (f * int k + 128) div 256) [0..<256] ! unat (img ! i)
          = (f * uint (img ! i) + 128) div 256"
    using unat_byte_less [of "img ! i"] by (simp del: upt_Suc)
  then show ?thesis
    using assms by (simp add: rescale_def Let_def del: upt_Suc)
qed

lemma depth_step_pixel:
  assumes "i < 10000"
  shows "fst (depth_step unit pend avg var) ! i
           = word_of_int ((cdiv (unit * 256) pend * uint (avg ! i) + 128) div 256)"
    and "fst (snd (depth_step unit pend avg var)) ! i
           = word_of_int ((cdiv ((unit * unit) * 256) (pend * pend) * uint (var ! i) + 128) div 256)"
    and "snd (snd (depth_step unit pend avg var)) = pend"
  using assms by (simp_all add: depth_step_def Let_def rescale_nth)

lemma rescale_saturated:
  assumes "i < 10000" and "0 \<le> f" and "f \<le> 256"
  shows "uint (rescale f img ! i) = min 255 ((f * uint (img ! i) + 128) div 256)"
proof -
  let ?p = "uint (img ! i)"
  have p: "0 \<le> ?p" "?p \<le> 255" using uint_bounded [of "img ! i"] by simp_all
  have "f * ?p \<le> 256 * 255"
    using assms(2,3) p by (intro mult_mono) auto
  then have hi: "(f * ?p + 128) div 256 \<le> 255" by simp
  have "0 \<le> f * ?p" using assms(2) p by simp
  then have lo: "0 \<le> (f * ?p + 128) div 256" by simp
  have "uint (word_of_int ((f * ?p + 128) div 256) :: byte) = (f * ?p + 128) div 256"
    using lo hi by (simp add: uint_word_of_int take_bit_int_eq_self)
  then show ?thesis using assms(1) hi by (simp add: rescale_nth)
qed

text \<open>
  Claim C4 says that the re-scaled pixels saturate at 255.  \<open>depth_step\<close> stores the
  table entry into the byte without a clamp, so a value above 255 keeps its low 8 bits:
  going from unit 2 to unit 1, a mean of 200 becomes 400 mod 256 = 144 and a variance of
  100 becomes 400 mod 256 = 144, where the claimed value is 255 for both.
\<close>

theorem depth_step_wraps:
  "fst (depth_step 2 1 (replicate 10000 200) (replicate 10000 100)) ! 0 = 144
   \<and> fst (snd (depth_step 2 1 (replicate 10000 200) (replicate 10000 100))) ! 0 = 144
   \<and> min 255 ((cdiv (2 * 256) 1 * 200 + 128) div 256) = 255
   \<and> min 255 ((cdiv ((2 * 2) * 256) (1 * 1) * 100 + 128) div 256) = 255"
  by (simp add: depth_step_def rescale_def cdiv_def del: upt_Suc)

section \<open>The rotating buffers\<close>

lemma rotor_inv_Start: "0 < open_usb \<Longrightarrow> rotor_inv (Start open_usb s)"
  by (simp add: rotor_inv_def Start_def)

lemma swap_bufs_fields:
  "done' (swap_bufs s) = fill s"
  "lock (swap_bufs s) = lock s"
  "fill (swap_bufs s) \<noteq> None"
  "fill (swap_bufs s) \<noteq> lock s"
  "fill (swap_bufs s) \<noteq> fill s"
  "fresh (swap_bufs s) = fresh s + 1"
  "frame (swap_bufs s) = frame s + 1"
  "ok (swap_bufs s) = ok s"
  by (auto simp add: swap_bufs_def Let_def)

lemma rotor_inv_swap: "rotor_inv (swap_bufs s)"
  by (simp add: rotor_inv_def swap_bufs_fields)

lemma rotor_inv_pow: "rotor_inv s \<Longrightarrow> rotor_inv ((swap_bufs ^^ n) s)"
  by (cases n) (simp_all add: rotor_inv_swap)

lemma rotor_inv_wait:
  "rotor_inv s \<Longrightarrow> Range_wait pubs block wait slept s = (ready, n, s1) \<Longrightarrow> rotor_inv s1"
proof (induction pubs block wait slept s rule: Range_wait.induct)
  case (1 pubs block wait slept s)
  show ?case
  proof (cases "fresh s \<le> 0 \<and> \<not> block \<le> 0 \<and> \<not> wait > 500")
    case True
    then have "Range_wait pubs block (wait + 1) (slept + 1) ((swap_bufs ^^ pubs slept) s) = (ready, n, s1)"
      using "1.prems"(2) by (simp add: Range_wait.simps [of pubs block wait])
    then show ?thesis
      using True "1.IH" "1.prems"(1) by (simp add: rotor_inv_pow)
  next
    case False
    then have "s1 = s"
      using "1.prems"(2) by (auto simp add: Range_wait.simps [of pubs block wait] split: if_splits)
    then show ?thesis using "1.prems"(1) by simp
  qed
qed

lemma rotor_inv_Range: "rotor_inv s \<Longrightarrow> rotor_inv (snd (snd (Range pubs block s)))"
proof -
  assume a: "rotor_inv s"
  obtain ready n s1 where w: "Range_wait pubs block 0 0 s = (ready, n, s1)"
    by (cases "Range_wait pubs block 0 0 s") auto
  then have "rotor_inv s1" using a rotor_inv_wait by blast
  then show ?thesis
    using a w by (cases ready) (auto simp add: Range_def Let_def rotor_inv_def)
qed

lemma rotor_inv_step: "rotor_inv s \<Longrightarrow> rotor_inv (step s e)"
  by (cases e) (simp_all add: rotor_inv_swap rotor_inv_Range)

lemma rotor_inv_run: "rotor_inv s \<Longrightarrow> rotor_inv (run s evs)"
  unfolding run_def by (induction evs arbitrary: s) (simp_all add: rotor_inv_step)

lemma rotor_inv_uses: "rotor_inv s \<Longrightarrow> uses s b \<le> 2"
  by (auto simp add: rotor_inv_def uses_def)

text \<open>
  Claim C2.  In every state reached after a successful \<open>Start\<close> by any interleaving of
  publisher swaps and consumer calls of \<open>Range\<close>: \<open>fill\<close> differs from \<open>lock\<close>, each
  of the three arrays is named by at most two of the pointers \<open>fill\<close>, \<open>done\<close>,
  \<open>lock\<close>, and right after the next publish \<open>done\<close> is the array that was being
  filled while \<open>fill\<close> names an array different from both \<open>lock\<close> and \<open>done\<close>.
\<close>

theorem rotor_exclusive:
  assumes "0 < open_usb"
  shows "fill (run (Start open_usb s0) evs) \<noteq> lock (run (Start open_usb s0) evs)
         \<and> (\<forall>b. uses (run (Start open_usb s0) evs) b \<le> 2)
         \<and> done' (swap_bufs (run (Start open_usb s0) evs)) = fill (run (Start open_usb s0) evs)
         \<and> fill (run (Start open_usb s0) evs) \<noteq> None
         \<and> fill (swap_bufs (run (Start open_usb s0) evs)) \<noteq> None
         \<and> fill (swap_bufs (run (Start open_usb s0) evs)) \<noteq> lock (swap_bufs (run (Start open_usb s0) evs))
         \<and> fill (swap_bufs (run (Start open_usb s0) evs)) \<noteq> done' (swap_bufs (run (Start open_usb s0) evs))"
proof -
  have "rotor_inv (run (Start open_usb s0) evs)"
    using assms by (simp add: rotor_inv_Start rotor_inv_run)
  then show ?thesis
    by (simp add: rotor_inv_uses swap_bufs_fields) (simp add: rotor_inv_def)
qed

lemma ex_run: "run (Start 1 closed) [Publish, Publish, Publish, Consume 0 idle, Publish]
   = \<lparr>fill = Some D2, done' = Some D1, lock = Some D0, fresh = 1, frame = 4, ok = 1\<rparr>"
  by code_simp

theorem rotor_exclusive_witness:
  "fill (run (Start 1 closed) [Publish, Publish, Publish, Consume 0 idle, Publish]) = Some D2
   \<and> lock (run (Start 1 closed) [Publish, Publish, Publish, Consume 0 idle, Publish]) = Some D0
   \<and> uses (run (Start 1 closed) [Publish, Publish, Publish, Consume 0 idle, Publish]) D0 \<le> 2
   \<and> done' (swap_bufs (run (Start 1 closed) [Publish, Publish, Publish, Consume 0 idle, Publish])) = Some D2
   \<and> fill (swap_bufs (run (Start 1 closed) [Publish, Publish, Publish, Consume 0 idle, Publish])) = Some D1"
  using rotor_exclusive [of 1 closed "[Publish, Publish, Publish, Consume 0 idle, Publish]"]
  by (simp add: ex_run swap_bufs_def)

lemma Range_wait_result:
  "Range_wait pubs block wait slept s = (ready, n, s1) \<Longrightarrow> wait \<le> 501 \<Longrightarrow>
     slept \<le> n \<and> int n - int slept \<le> 501 - wait
     \<and> (ready \<longleftrightarrow> 0 < fresh s1)
     \<and> (\<exists>m. s1 = (swap_bufs ^^ m) s)
     \<and> (\<not> ready \<longrightarrow> block \<le> 0 \<and> n = slept \<or> 0 < block \<and> int n - int slept = 501 - wait)"
proof (induction pubs block wait slept s rule: Range_wait.induct)
  case (1 pubs block wait slept s)
  show ?case
  proof (cases "fresh s \<le> 0 \<and> \<not> block \<le> 0 \<and> \<not> wait > 500")
    case True
    then have r: "Range_wait pubs block (wait + 1) (slept + 1) ((swap_bufs ^^ pubs slept) s) = (ready, n, s1)"
      using "1.prems"(1) by (simp add: Range_wait.simps [of pubs block wait])
    have ih: "slept + 1 \<le> n \<and> int n - int (slept + 1) \<le> 501 - (wait + 1)
     \<and> (ready \<longleftrightarrow> 0 < fresh s1)
     \<and> (\<exists>m. s1 = (swap_bufs ^^ m) ((swap_bufs ^^ pubs slept) s))
     \<and> (\<not> ready \<longrightarrow> block \<le> 0 \<and> n = slept + 1 \<or> 0 < block \<and> int n - int (slept + 1) = 501 - (wait + 1))"
      using True r by (intro "1.IH") auto
    then obtain m where "s1 = (swap_bufs ^^ m) ((swap_bufs ^^ pubs slept) s)" by blast
    then have "s1 = (swap_bufs ^^ (m + pubs slept)) s" by (simp add: funpow_add)
    then have "\<exists>m. s1 = (swap_bufs ^^ m) s" by blast
    then show ?thesis using ih True by auto
  next
    case False
    then have e: "s1 = s \<and> n = slept \<and> (ready \<longleftrightarrow> 0 < fresh s)
                  \<and> (\<not> ready \<longrightarrow> block \<le> 0 \<or> wait > 500)"
      using "1.prems"(1) by (auto simp add: Range_wait.simps [of pubs block wait] split: if_splits)
    have "s = (swap_bufs ^^ 0) s" by simp
    then have "\<exists>m. s = (swap_bufs ^^ m) s" by blast
    then show ?thesis using e "1.prems"(2) by auto
  qed
qed

text \<open>
  Claim C8, amended.  \<open>Range\<close> returns null when the driver is not running
  (\<open>ok \<le> 0\<close>); when running with no fresh frame it returns null at once if \<open>block\<close>
  is not positive; if \<open>block\<close> is positive and no frame becomes fresh it returns null
  after 501 sleeps of 1 ms (the test \<open>wait++ > 500\<close> first holds on the 502nd poll),
  and it never sleeps more than 501 times; on success it assigns \<open>lock \<leftarrow> done\<close> and
  \<open>fresh \<leftarrow> 0\<close> and returns \<open>lock\<close>.  The state the call acts on is the one the
  worker has reached by then, some number \<open>m\<close> of publishes later.
\<close>

theorem Range_amended:
  assumes "Range pubs block s = (r, n, s')"
  shows "n \<le> 501
     \<and> (ok s \<le> 0 \<longrightarrow> r = None \<and> n = 0 \<and> s' = s)
     \<and> (0 < ok s \<longrightarrow> fresh s \<le> 0 \<longrightarrow> block \<le> 0 \<longrightarrow> r = None \<and> n = 0 \<and> s' = s)
     \<and> (0 < ok s \<longrightarrow>
          (\<exists>m. fresh ((swap_bufs ^^ m) s) \<le> 0 \<and> r = None \<and> s' = (swap_bufs ^^ m) s
                  \<and> (block \<le> 0 \<and> n = 0 \<or> 0 < block \<and> n = 501)
              \<or> 0 < fresh ((swap_bufs ^^ m) s)
                  \<and> s' = ((swap_bufs ^^ m) s)\<lparr>lock := done' ((swap_bufs ^^ m) s), fresh := 0\<rparr>
                  \<and> r = lock s'))"
proof (cases "ok s \<le> 0")
  case True
  then show ?thesis using assms by (simp add: Range_def)
next
  case False
  obtain ready k s1 where w: "Range_wait pubs block 0 0 s = (ready, k, s1)"
    by (cases "Range_wait pubs block 0 0 s") auto
  have p: "int k \<le> 501" "ready \<longleftrightarrow> 0 < fresh s1" "\<exists>m. s1 = (swap_bufs ^^ m) s"
    "\<not> ready \<longrightarrow> block \<le> 0 \<and> k = 0 \<or> 0 < block \<and> int k = 501"
    using Range_wait_result [OF w] by auto
  have q: "fresh s \<le> 0 \<longrightarrow> block \<le> 0 \<longrightarrow> \<not> ready \<and> k = 0 \<and> s1 = s"
    using w by (auto simp add: Range_wait.simps [of pubs block 0])
  obtain m where m: "s1 = (swap_bufs ^^ m) s" using p(3) by blast
  show ?thesis
  proof (cases ready)
    case True
    then have "r = done' s1" "n = k" "s' = s1\<lparr>lock := done' s1, fresh := 0\<rparr>"
      using assms w False by (auto simp add: Range_def Let_def)
    then show ?thesis using True p q m False by auto
  next
    case False
    then have "r = None" "n = k" "s' = s1"
      using assms w \<open>\<not> ok s \<le> 0\<close> by (auto simp add: Range_def Let_def)
    then show ?thesis using False p q m \<open>\<not> ok s \<le> 0\<close> by auto
  qed
qed

lemma Range_timeout_ex: "Range idle 1 (Start 1 closed) = (None, 501, Start 1 closed)"
  by code_simp

lemma Range_ready_ex:
  "Range idle 0 (run (Start 1 closed) [Publish, Publish, Publish])
     = (Some D0, 0, \<lparr>fill = Some D1, done' = Some D0, lock = Some D0, fresh = 0, frame = 3, ok = 1\<rparr>)"
  by code_simp

theorem Range_amended_witness:
  "Range idle 1 (Start 1 closed) = (None, 501, Start 1 closed) \<and> (501 :: nat) \<le> 501 \<and> 0 < ok (Start 1 closed)"
  using Range_amended [of idle 1 "Start 1 closed" None 501 "Start 1 closed"] Range_timeout_ex
  by (simp add: Start_def closed_def)

text \<open>
  Claim C8 as stated gives up after at most 500 sleeps.  With the worker idle and
  \<open>block = 1\<close>, \<open>Range\<close> returns null after 501 of them.
\<close>

theorem Range_500_counterexample:
  "fst (Range idle 1 (Start 1 closed)) = None \<and> \<not> fst (snd (Range idle 1 (Start 1 closed))) \<le> 500"
  by (simp add: Range_timeout_ex)

section \<open>The temporal filter on a constant input\<close>

lemma clamp_byte_uint: "clamp_byte (uint (b :: byte)) = uint b"
proof -
  have "uint b < 256" using uint_bounded [of b] by simp
  then show ?thesis by (auto simp add: clamp_byte_def)
qed

lemma fly_pixel_steady:
  assumes "0 < mn"
  shows "fly_pixel 0 mn m m 0 = (m, 0)"
proof -
  have k: "cdiv 0 mn = 0" by (simp add: cdiv_def)
  have "(uint m * 256 + 128) div 256 = uint m" by simp
  then show ?thesis
    by (simp add: fly_pixel_def Let_def k clamp_byte_uint) (simp add: clamp_byte_def)
qed

lemma map_nth_10000: "length xs = 10000 \<Longrightarrow> map (\<lambda>i. xs ! i) [0..<10000] = xs"
  using map_nth [of xs] by simp

lemma map_const_10000: "map (\<lambda>i. c) [0..<10000] = replicate 10000 c"
  using map_replicate_const [of c "[0..<10000]"] by simp

lemma flywheel_first:
  assumes "length med = 10000"
  shows "flywheel fi mn 0 med st = (med, replicate 10000 0)"
  using assms by (cases st) (simp add: flywheel_def)

lemma flywheel_steady:
  assumes "0 < mn" and "length med = 10000"
  shows "flywheel 0 mn frm med (med, replicate 10000 0) = (med, replicate 10000 0)"
proof (cases "frm \<le> 0")
  case True
  then show ?thesis using assms by (simp add: flywheel_def)
next
  case False
  have "map (\<lambda>i. fst (fly_pixel 0 mn (med ! i) (med ! i) (replicate 10000 0 ! i))) [0..<10000]
          = map (\<lambda>i. med ! i) [0..<10000]"
    using assms by (intro map_cong) (simp_all add: fly_pixel_steady del: upt_Suc)
  moreover have "map (\<lambda>i. snd (fly_pixel 0 mn (med ! i) (med ! i) (replicate 10000 0 ! i))) [0..<10000]
          = map (\<lambda>i. 0) [0..<10000]"
    using assms by (intro map_cong) (simp_all add: fly_pixel_steady del: upt_Suc)
  ultimately show ?thesis
    using False assms by (simp add: flywheel_def map_nth_10000 map_const_10000 del: upt_Suc)
qed

lemma flywheel_frames_steady:
  assumes "0 < mn" and "length med = 10000"
  shows "flywheel_frames 0 mn med n frm (med, replicate 10000 0) = (med, replicate 10000 0)"
  using assms by (induction n arbitrary: frm) (simp_all add: flywheel_steady)

text \<open>
  Claim C6.  With \<open>fi = 0\<close> and \<open>mn > 0\<close> and the same median image on every frame,
  the first call (frame counter 0) sets the mean to the median image and the variance to
  zero, and every later call leaves the mean equal to that image and the variance zero.
\<close>

theorem flywheel_constant_input:
  assumes "0 < mn" and "length med = 10000"
  shows "flywheel 0 mn 0 med st = (med, replicate 10000 0)
         \<and> (0 < frm \<longrightarrow> flywheel 0 mn frm med (med, replicate 10000 0) = (med, replicate 10000 0))
         \<and> flywheel_frames 0 mn med (Suc n) 0 st = (med, replicate 10000 0)"
  using assms by (simp add: flywheel_first flywheel_steady flywheel_frames_steady)

theorem flywheel_constant_input_witness:
  "flywheel 0 16384 0 (replicate 10000 77) (replicate 10000 3, replicate 10000 9)
      = (replicate 10000 77, replicate 10000 0)
   \<and> flywheel 0 16384 1 (replicate 10000 77) (replicate 10000 77, replicate 10000 0)
      = (replicate 10000 77, replicate 10000 0)
   \<and> flywheel_frames 0 16384 (replicate 10000 77) (Suc 4) 0 (replicate 10000 3, replicate 10000 9)
      = (replicate 10000 77, replicate 10000 0)"
  using flywheel_constant_input [of 16384 "replicate 10000 77" "(replicate 10000 3, replicate 10000 9)" 1 4]
  by simp

section \<open>Framing: sync and fill_raw\<close>

lemma sync_loop_round:
  "sync_loop t start =
     (if start > 20000 then (Gibberish, t)
      else (case sync_round t of
              Fail t1 \<Rightarrow> (ReadFail, t1)
            | Skip t1 \<Rightarrow> sync_loop t1 (start + 1)
            | Hit t1 \<Rightarrow> (Found (start + 1), t1)))"
  by (subst sync_loop.simps) (simp add: sync_round_def split: prod.splits option.splits)

lemma read_bytes_Suc:
  "read1 t = (Some b, t1) \<Longrightarrow> read_bytes k t1 = Some (bs, t2) \<Longrightarrow>
     read_bytes (Suc k) t = Some (b # bs, t2)"
  by simp

lemma read_bytes_append:
  "read_bytes a t = Some (xs, t1) \<Longrightarrow> read_bytes b t1 = Some (ys, t2) \<Longrightarrow>
     read_bytes (a + b) t = Some (xs @ ys, t2)"
proof (induction a arbitrary: t xs)
  case 0
  then show ?case by simp
next
  case (Suc a)
  then show ?case
    by (auto split: prod.splits option.splits)
qed

lemma read_concat: "read t n = (bs, t') \<Longrightarrow> concat t = bs @ concat t' \<and> length bs \<le> n"
  by (cases t) (auto simp add: read_def split: if_splits)

lemma read1_concat: "read1 t = (Some b, t') \<Longrightarrow> concat t = b # concat t'"
proof -
  assume a: "read1 t = (Some b, t')"
  obtain bs t1 where r: "read t 1 = (bs, t1)" by (cases "read t 1") auto
  then have "concat t = bs @ concat t1" "length bs \<le> 1" using read_concat by blast+
  moreover have "bs = [b]" "t1 = t'"
    using a r \<open>length bs \<le> 1\<close> by (auto simp add: read1_def split: list.splits)
  ultimately show ?thesis by simp
qed

lemma read_bytes_concat:
  "read_bytes k t = Some (bs, t') \<Longrightarrow> concat t = bs @ concat t' \<and> length bs = k"
proof (induction k arbitrary: t bs)
  case 0
  then show ?case by simp
next
  case (Suc k)
  then show ?case
    by (auto split: prod.splits option.splits dest: read1_concat)
qed

lemma sync_round_Hit:
  "sync_round t = Hit t' \<Longrightarrow> read_bytes 4 t = Some ([0, 255, 32, 39], t')"
  by (auto simp add: sync_round_def numeral_eq_Suc split: prod.splits option.splits if_splits)

lemma sync_round_Skip:
  "sync_round t = Skip t' \<Longrightarrow> \<exists>k bs. read_bytes k t = Some (bs, t') \<and> 1 \<le> k \<and> k \<le> 4"
proof -
  assume a: "sync_round t = Skip t'"
  then have "(\<exists>bs. read_bytes 1 t = Some (bs, t')) \<or> (\<exists>bs. read_bytes 2 t = Some (bs, t'))
      \<or> (\<exists>bs. read_bytes 3 t = Some (bs, t')) \<or> (\<exists>bs. read_bytes 4 t = Some (bs, t'))"
    by (auto simp add: sync_round_def numeral_eq_Suc split: prod.splits option.splits if_splits)
  then show ?thesis by fastforce
qed

lemma sync_round_Fail:
  "sync_round t = Fail t' \<Longrightarrow>
     \<exists>k bs t''. read_bytes k t = Some (bs, t'') \<and> read1 t'' = (None, t') \<and> k < 4"
proof -
  assume a: "sync_round t = Fail t'"
  then have "(\<exists>bs t''. read_bytes 0 t = Some (bs, t'') \<and> read1 t'' = (None, t'))
      \<or> (\<exists>bs t''. read_bytes 1 t = Some (bs, t'') \<and> read1 t'' = (None, t'))
      \<or> (\<exists>bs t''. read_bytes 2 t = Some (bs, t'') \<and> read1 t'' = (None, t'))
      \<or> (\<exists>bs t''. read_bytes 3 t = Some (bs, t'') \<and> read1 t'' = (None, t'))"
    by (auto simp add: sync_round_def numeral_eq_Suc split: prod.splits option.splits if_splits)
  then show ?thesis by fastforce
qed


lemma sync_loop_post:
  "sync_loop t start = (r, t') \<Longrightarrow>
     (case r of
        Found n \<Rightarrow> start < n \<and> n \<le> 20001
          \<and> (\<exists>k pre. read_bytes k t = Some (pre @ [0, 255, 32, 39], t') \<and> k \<le> 4 * nat (n - start))
      | Gibberish \<Rightarrow>
          (\<exists>k bs. read_bytes k t = Some (bs, t') \<and> nat (20001 - start) \<le> k
                   \<and> k \<le> 4 * nat (20001 - start))
      | ReadFail \<Rightarrow>
          (\<exists>k bs t''. read_bytes k t = Some (bs, t'') \<and> read1 t'' = (None, t')
                   \<and> k < 4 * nat (20001 - start)))"
proof (induction "nat (20001 - start)" arbitrary: t start)
  case 0
  then have "r = Gibberish" "t' = t" by (simp_all add: sync_loop_round)
  moreover have "read_bytes 0 t = Some ([], t)" by simp
  ultimately show ?case using 0 by auto
next
  case (Suc m)
  then have le: "start \<le> 20000" by simp
  show ?case
  proof (cases "sync_round t")
    case (Hit t1)
    then have "r = Found (start + 1)" "t' = t1"
      using Suc.prems le by (simp_all add: sync_loop_round)
    moreover have "read_bytes 4 t = Some ([] @ [0, 255, 32, 39], t1)"
      using Hit by (simp add: sync_round_Hit)
    then have "\<exists>k pre. read_bytes k t = Some (pre @ [0, 255, 32, 39], t1) \<and> k \<le> 4"
      by blast
    ultimately show ?thesis using le by simp
  next
    case (Fail t1)
    then have "r = ReadFail" "t' = t1"
      using Suc.prems le by (simp_all add: sync_loop_round)
    moreover obtain k bs t'' where k: "read_bytes k t = Some (bs, t'')" "read1 t'' = (None, t1)" "k < 4"
      using Fail sync_round_Fail by blast
    moreover have "k < 4 * nat (20001 - start)" using k(3) le by simp
    ultimately have "\<exists>k bs t''. read_bytes k t = Some (bs, t'') \<and> read1 t'' = (None, t')
                   \<and> k < 4 * nat (20001 - start)" by blast
    then show ?thesis using \<open>r = ReadFail\<close> by simp
  next
    case (Skip t1)
    then have rec: "sync_loop t1 (start + 1) = (r, t')"
      using Suc.prems le by (simp add: sync_loop_round)
    obtain j js where j: "read_bytes j t = Some (js, t1)" "1 \<le> j" "j \<le> 4"
      using Skip sync_round_Skip by blast
    have m: "m = nat (20001 - (start + 1))" using Suc.hyps(2) by simp
    note ih = Suc.hyps(1) [OF m rec]
    show ?thesis
    proof (cases r)
      case (Found n)
      then obtain k pre where k: "start + 1 < n" "n \<le> 20001"
        "read_bytes k t1 = Some (pre @ [0, 255, 32, 39], t')" "k \<le> 4 * nat (n - (start + 1))"
        using ih by auto
      have "read_bytes (j + k) t = Some ((js @ pre) @ [0, 255, 32, 39], t')"
        using read_bytes_append [OF j(1) k(3)] by simp
      moreover have "j + k \<le> 4 * nat (n - start)" using j k by simp
      ultimately have "\<exists>k pre. read_bytes k t = Some (pre @ [0, 255, 32, 39], t')
          \<and> k \<le> 4 * nat (n - start)" by blast
      then show ?thesis using Found k(1,2) by simp
    next
      case Gibberish
      then obtain k bs where k: "read_bytes k t1 = Some (bs, t')"
        "nat (20001 - (start + 1)) \<le> k" "k \<le> 4 * nat (20001 - (start + 1))"
        using ih by auto
      have "read_bytes (j + k) t = Some (js @ bs, t')"
        using read_bytes_append [OF j(1) k(1)] by simp
      moreover have "nat (20001 - start) \<le> j + k" "j + k \<le> 4 * nat (20001 - start)"
        using j k le by simp_all
      ultimately have "\<exists>k bs. read_bytes k t = Some (bs, t') \<and> nat (20001 - start) \<le> k
                   \<and> k \<le> 4 * nat (20001 - start)" by blast
      then show ?thesis using Gibberish by simp
    next
      case ReadFail
      then obtain k bs t'' where k: "read_bytes k t1 = Some (bs, t'')" "read1 t'' = (None, t')"
        "k < 4 * nat (20001 - (start + 1))"
        using ih by auto
      have "read_bytes (j + k) t = Some (js @ bs, t'')"
        using read_bytes_append [OF j(1) k(1)] by simp
      moreover have "j + k < 4 * nat (20001 - start)"
        using j k le by simp
      ultimately have "\<exists>k bs t''. read_bytes k t = Some (bs, t'') \<and> read1 t'' = (None, t')
                   \<and> k < 4 * nat (20001 - start)" using k(2) by blast
      then show ?thesis using ReadFail by simp
    qed
  qed
qed

text \<open>
  Claim C7, amended.  For every input stream \<open>sync\<close> returns: with failure (0) when a
  read fails (end of stream or timeout) before a match, or when 20001 rounds of the
  search loop have ended without reading the sentinel 00 FF 20 27 in order; a round
  consumes 1 to 4 bytes, so giving up comes after 20001 to 80004 consumed bytes, not
  after 20000.  On success (1) the bytes consumed end with the sentinel, nothing beyond
  it is consumed, and they are at most 4 per round, 80004 in all.
\<close>

theorem sync_amended:
  assumes "sync_loop t 0 = (r, t')"
  shows "fst (sync t frm unit pend avg var) = (case r of Found n \<Rightarrow> 1 | Gibberish \<Rightarrow> 0 | ReadFail \<Rightarrow> 0)
     \<and> snd (snd (sync t frm unit pend avg var)) = t'
     \<and> (case r of
        Found n \<Rightarrow> 1 \<le> n \<and> n \<le> 20001
          \<and> (\<exists>k pre. read_bytes k t = Some (pre @ [0, 255, 32, 39], t') \<and> k \<le> 4 * nat n)
      | Gibberish \<Rightarrow> (\<exists>k bs. read_bytes k t = Some (bs, t') \<and> 20001 \<le> k \<and> k \<le> 80004)
      | ReadFail \<Rightarrow>
          (\<exists>k bs t''. read_bytes k t = Some (bs, t'') \<and> read1 t'' = (None, t') \<and> k < 80004))"
proof -
  have a: "fst (sync t frm unit pend avg var) = (case r of Found n \<Rightarrow> 1 | Gibberish \<Rightarrow> 0 | ReadFail \<Rightarrow> 0)"
    using assms by (simp add: sync_def split: sync_result.splits)
  have b: "snd (snd (sync t frm unit pend avg var)) = t'"
    using assms by (simp add: sync_def split: sync_result.splits)
  show ?thesis
    using a b sync_loop_post [OF assms] by (cases r) (auto simp del: read_bytes.simps)
qed

lemma sync_loop_skips:
  "start + int n \<le> 20001 \<Longrightarrow>
     sync_loop (replicate n [0, 255, 32, 0] @ rest) start = sync_loop rest (start + int n)"
proof (induction n arbitrary: start)
  case 0
  then show ?case by simp
next
  case (Suc n)
  have "sync_round ([0, 255, 32, 0] # replicate n [0, 255, 32, 0] @ rest)
          = Skip (replicate n [0, 255, 32, 0] @ rest)"
    by (simp add: sync_round_def read1_def read_def)
  then have "sync_loop (replicate (Suc n) [0, 255, 32, 0] @ rest) start
          = sync_loop (replicate n [0, 255, 32, 0] @ rest) (start + 1)"
    using Suc.prems by (subst sync_loop_round) simp
  also have "\<dots> = sync_loop rest (start + 1 + int n)"
    using Suc.prems by (intro Suc.IH) simp
  also have "start + 1 + int n = start + int (Suc n)" by simp
  finally show ?case by simp
qed

lemma sync_loop_hit: "start \<le> 20000 \<Longrightarrow> sync_loop [[0, 255, 32, 39]] start = (Found (start + 1), [])"
  by (subst sync_loop_round) (simp add: sync_round_def read1_def read_def)

lemma sync_junk: "sync_loop (junk @ [[0, 255, 32, 39]]) 0 = (Found 5002, [])"
  using sync_loop_skips [of 0 5001 "[[0, 255, 32, 39]]"] by (simp add: junk_def sync_loop_hit)

text \<open>
  Claim C7 as stated makes \<open>sync\<close> fail once more than 20000 bytes have been consumed
  without a match.  After the 20004 bytes of \<open>junk\<close> no sentinel has been matched, and
  \<open>sync\<close> still returns 1 on the sentinel that follows: \<open>start\<close> counts rounds, not bytes.
\<close>

theorem sync_20000_counterexample:
  "length (concat junk) = 20004
   \<and> fst (sync (junk @ [[0, 255, 32, 39]]) 0 2 2 [] []) = 1"
  by (simp add: sync_def sync_junk) (simp add: junk_def length_concat sum_list_replicate)

theorem sync_amended_witness:
  "sync_loop (junk @ [[0, 255, 32, 39]]) 0 = (Found 5002, [])
   \<and> fst (sync (junk @ [[0, 255, 32, 39]]) 0 2 2 [] []) = 1"
  using sync_amended [of "junk @ [[0, 255, 32, 39]]" "Found 5002" "[]" 0 2 2 "[]" "[]"] sync_junk
  by simp

lemma fill_raw_loop_post:
  "fill_raw_loop t pkt n = (rc, pkt', t') \<Longrightarrow> n < 10018 \<Longrightarrow> length pkt = 10018 \<Longrightarrow> 0 < rc \<Longrightarrow>
     \<exists>bs. length bs = 10018 - n \<and> concat t = bs @ concat t' \<and> pkt' = take n pkt @ bs"
proof (induction t pkt n rule: fill_raw_loop.induct)
  case (1 t pkt n)
  obtain bs t1 where r: "read t (10018 - n) = (bs, t1)"
    by (cases "read t (10018 - n)") auto
  then have c: "concat t = bs @ concat t1" "length bs \<le> 10018 - n"
    using read_concat by blast+
  have ne: "bs \<noteq> []"
    using "1.prems"(1,4) r by (auto simp add: fill_raw_loop.simps [of t pkt n])
  show ?case
  proof (cases "n + length bs \<ge> 10018")
    case True
    then have "pkt' = take n pkt @ bs @ drop (n + length bs) pkt" "t' = t1"
      using "1.prems"(1) r ne by (simp_all add: fill_raw_loop.simps [of t pkt n] Let_def)
    moreover have "length bs = 10018 - n" using True c(2) "1.prems"(2) by simp
    ultimately show ?thesis using c(1) "1.prems"(2,3) by simp
  next
    case False
    let ?pkt1 = "take n pkt @ bs @ drop (n + length bs) pkt"
    have rec: "fill_raw_loop t1 ?pkt1 (n + length bs) = (rc, pkt', t')"
      using "1.prems"(1) r ne False by (simp add: fill_raw_loop.simps [of t pkt n] Let_def)
    have len: "length ?pkt1 = 10018" using False "1.prems"(2,3) by simp
    have "\<exists>bs2. length bs2 = 10018 - (n + length bs) \<and> concat t1 = bs2 @ concat t'
              \<and> pkt' = take (n + length bs) ?pkt1 @ bs2"
      using r ne False rec len "1.prems"(4)
      by (intro "1.IH") auto
    then obtain bs2 where b: "length bs2 = 10018 - (n + length bs)" "concat t1 = bs2 @ concat t'"
      "pkt' = take (n + length bs) ?pkt1 @ bs2" by blast
    have "take (n + length bs) ?pkt1 = take n pkt @ bs"
      using "1.prems"(2,3) by simp
    then have "pkt' = take n pkt @ (bs @ bs2)" using b(3) by simp
    moreover have "length (bs @ bs2) = 10018 - n" using b(1) False by simp
    moreover have "concat t = (bs @ bs2) @ concat t'" using c(1) b(2) by simp
    ultimately show ?thesis by blast
  qed
qed

text \<open>
  Claim C3, amended.  After a successful \<open>sync\<close>, \<open>fill_raw\<close> on success consumes
  exactly the next 10018 bytes of the transport, the ones that follow the sentinel (16
  header bytes, 10000 pixels, 2 trailing bytes), and stores them at offsets 0..10017 of
  the packet buffer; the sentinel itself was consumed by \<open>sync\<close> and is not in the
  buffer.  The image \<open>raw = pkt + 16\<close> is bytes 16..10015 after the sentinel.
\<close>

theorem fill_raw_amended:
  assumes "sync_loop t0 0 = (Found start, t)"
    and "fill_raw t pkt = (rc, pkt', t')" and "0 < rc" and "length pkt = 10018"
  shows "length pkt' = 10018
         \<and> concat t = pkt' @ concat t'
         \<and> (\<exists>pre. concat t0 = pre @ [0, 255, 32, 39] @ pkt' @ concat t')
         \<and> take 10000 (raw_of pkt') = take 10000 (drop 16 (concat t))"
proof -
  obtain bs where b: "length bs = 10018 - 0" "concat t = bs @ concat t'" "pkt' = take 0 pkt @ bs"
    using fill_raw_loop_post [of t pkt 0 rc pkt' t'] assms(2-4) by (auto simp add: fill_raw_def)
  then have p: "pkt' = bs" "length pkt' = 10018" "concat t = pkt' @ concat t'" by simp_all
  obtain k pre where "read_bytes k t0 = Some (pre @ [0, 255, 32, 39], t)"
    using sync_loop_post [OF assms(1)] by auto
  then have "concat t0 = (pre @ [0, 255, 32, 39]) @ concat t"
    using read_bytes_concat by blast
  then have "concat t0 = pre @ [0, 255, 32, 39] @ pkt' @ concat t'"
    using p(3) by simp
  then have e: "\<exists>pre. concat t0 = pre @ [0, 255, 32, 39] @ pkt' @ concat t'" by blast
  have "drop 16 (concat t) = drop 16 pkt' @ concat t'"
    using p by simp
  then have "take 10000 (drop 16 (concat t)) = take 10000 (drop 16 pkt')"
    using p(2) by simp
  then show ?thesis using p e by (simp add: raw_of_def)
qed

lemma fill_raw_frame: "fill_raw [frame_bytes] (replicate 10018 0) = (1, frame_bytes, [])"
  by (simp add: fill_raw_def fill_raw_loop.simps [of _ _ 0] read_def frame_bytes_def)

lemma sync_frame: "sync_loop [[0, 255, 32, 39], frame_bytes] 0 = (Found 1, [frame_bytes])"
  by (subst sync_loop_round) (simp add: sync_round_def read1_def read_def)

theorem fill_raw_amended_witness:
  "sync_loop [[0, 255, 32, 39], frame_bytes] 0 = (Found 1, [frame_bytes])
   \<and> fill_raw [frame_bytes] (replicate 10018 0) = (1, frame_bytes, [])
   \<and> length frame_bytes = 10018
   \<and> concat [frame_bytes] = frame_bytes @ concat []"
  using fill_raw_amended [of "[[0, 255, 32, 39], frame_bytes]" 1 "[frame_bytes]" "replicate 10018 0"
      1 frame_bytes "[]"] sync_frame fill_raw_frame
  by simp

text \<open>
  Claim C3 as stated has \<open>fill_raw\<close> consume 10014 bytes and the sentinel in bytes 0..3
  of the buffer.  On a stream made of the sentinel and 10018 bytes of value 1,
  \<open>fill_raw\<close> consumes all 10018 and the buffer starts with 1, 1, 1, 1.
\<close>

theorem fill_raw_10014_counterexample:
  "sync_loop [[0, 255, 32, 39], frame_bytes] 0 = (Found 1, [frame_bytes])
   \<and> fill_raw [frame_bytes] (replicate 10018 0) = (1, frame_bytes, [])
   \<and> length (concat [frame_bytes]) - length (concat ([] :: transport)) \<noteq> 10014
   \<and> take 4 frame_bytes \<noteq> [0, 255, 32, 39]"
  by (simp add: sync_frame fill_raw_frame) (simp add: frame_bytes_def, simp add: numeral_eq_Suc)

section \<open>The median of a uniform image\<close>

lemma uhist_nth: "uhist c n ! unat c = n"
  using unat_byte_less [of c] by (simp add: uhist_def)

lemma uhist_upd: "(uhist c n)[unat c := k] = uhist c k"
  by (simp add: uhist_def)

lemma uhist_0: "replicate 256 0 = uhist c 0"
proof -
  have "(replicate 256 (0::int))[unat c := replicate 256 0 ! unat c] = replicate 256 0"
    by (rule list_update_id)
  then show ?thesis using unat_byte_less [of c] by (simp add: uhist_def)
qed

lemma clamp_row_range: "0 \<le> clamp_row k \<and> clamp_row k \<le> 9900"
  by (simp add: clamp_row_def)

lemma uniform_pel:
  assumes "0 \<le> nowx" and "nowx \<le> 99"
  shows "replicate 10000 c ! nat (clamp_row k + nowx) = c"
proof -
  have "nat (clamp_row k + nowx) < 10000"
    using clamp_row_range [of k] assms by arith
  then show ?thesis by simp
qed

lemma uniform_pel0: "replicate 10000 c ! nat (clamp_row k) = c"
  using uniform_pel [of 0 c k] by simp

lemma uint_byte_le: "uint (c :: byte) \<le> 255"
  using uint_bounded [of c] by simp

lemma seed_row_uniform:
  assumes "uint c \<le> b"
  shows "seed_row (replicate 10000 c) y (uhist c n, b) j = (uhist c (n + 5), uint c)"
  using assms
  by (simp add: seed_row_def Let_def uniform_pel uniform_pel0 uhist_nth uhist_upd)
    (simp add: add.commute)

lemma seed_uniform:
  "foldl (seed_row (replicate 10000 c) y) (replicate 256 0, 255) rows5 = (uhist c 25, uint c)"
proof -
  have "foldl (seed_row (replicate 10000 c) y) (uhist c 0, 255) rows5 = (uhist c 25, uint c)"
    by (simp add: rows5_def seed_row_uniform uint_byte_le)
  then show ?thesis by (simp only: uhist_0 [of c])
qed

lemma scan_uniform: "scan (uhist c 25) (uint c) 0 0 lowest = (uint c, lowest[0 := uint c])"
  using uint_byte_le [of c] by (subst scan.simps) (simp add: uhist_nth Let_def)

lemma sub_col_uniform:
  assumes "1 < n" and "0 \<le> nowx" and "nowx \<le> 99"
  shows "sub_col (replicate 10000 c) y nowx lowest (uhist c n, uint c, cnt) j
           = (uhist c (n - 1), uint c, cnt)"
  using assms by (simp add: sub_col_def Let_def uniform_pel uhist_nth uhist_upd)

lemma sub_uniform:
  assumes "0 \<le> nowx" and "nowx \<le> 99"
  shows "foldl (sub_col (replicate 10000 c) y nowx lowest) (uhist c 25, uint c, 0) rows5
           = (uhist c 20, uint c, 0)"
  using assms by (simp add: rows5_def sub_col_uniform)

lemma add_col_uniform:
  assumes "0 \<le> nowx" and "nowx \<le> 99"
  shows "add_col (replicate 10000 c) y nowx (uhist c n, uint c) j = (uhist c (n + 1), uint c)"
  using assms by (simp add: add_col_def Let_def uniform_pel uhist_nth uhist_upd)

lemma add_uniform:
  assumes "0 \<le> nowx" and "nowx \<le> 99"
  shows "foldl (add_col (replicate 10000 c) y nowx) (uhist c 20, uint c) rows5
           = (uhist c 25, uint c)"
  using assms by (simp add: rows5_def add_col_uniform)

lemma median_pixel_uniform:
  assumes "0 \<le> x" and "x \<le> 99"
  shows "median_pixel (replicate 10000 c) y (uhist c 25, uint c, lowest, med) x
           = (uhist c 25, uint c, lowest[0 := uint c], med[nat (y + x) := c])"
  using assms
  by (simp add: median_pixel_def scan_uniform Let_def sub_uniform add_uniform del: foldl.simps)

lemma pixels_uniform:
  assumes "filled c (nat y) med" and "0 \<le> y" and "y \<le> 9900" and "n \<le> 100"
  shows "\<exists>lowest' med'. foldl (median_pixel (replicate 10000 c) y) (uhist c 25, uint c, lowest, med)
             (map int [0..<n]) = (uhist c 25, uint c, lowest', med') \<and> filled c (nat y + n) med'"
  using assms(4)
proof (induction n)
  case 0
  then show ?case using assms(1) by simp
next
  case (Suc n)
  then obtain lowest' med' where
    f: "foldl (median_pixel (replicate 10000 c) y) (uhist c 25, uint c, lowest, med) (map int [0..<n])
          = (uhist c 25, uint c, lowest', med')" and g: "filled c (nat y + n) med'"
    by auto
  have "foldl (median_pixel (replicate 10000 c) y) (uhist c 25, uint c, lowest, med) (map int [0..<Suc n])
          = median_pixel (replicate 10000 c) y (uhist c 25, uint c, lowest', med') (int n)"
    using f by simp
  also have "\<dots> = (uhist c 25, uint c, lowest'[0 := uint c], med'[nat (y + int n) := c])"
    using Suc.prems by (intro median_pixel_uniform) auto
  finally have h: "foldl (median_pixel (replicate 10000 c) y) (uhist c 25, uint c, lowest, med)
      (map int [0..<Suc n]) = (uhist c 25, uint c, lowest'[0 := uint c], med'[nat (y + int n) := c])" .
  have "nat (y + int n) = nat y + n" using assms(2) by simp
  moreover have "nat y + n < length med'"
    using g assms(2,3) Suc.prems by (simp add: filled_def)
  ultimately have "filled c (nat y + Suc n) (med'[nat (y + int n) := c])"
    using g by (auto simp add: filled_def nth_list_update less_Suc_eq)
  then show ?case using h by blast
qed

lemma median_row_uniform:
  assumes "filled c (nat y) med" and "0 \<le> y" and "y \<le> 9900"
  shows "\<exists>lowest' med'. median_row (replicate 10000 c) (lowest, med) y = (lowest', med')
           \<and> filled c (nat y + 100) med'"
proof -
  obtain lowest' med' where
    "foldl (median_pixel (replicate 10000 c) y) (uhist c 25, uint c, lowest, med) (map int [0..<100])
       = (uhist c 25, uint c, lowest', med')" and "filled c (nat y + 100) med'"
    using pixels_uniform [OF assms, of 100 lowest] by auto
  then show ?thesis
    by (simp add: median_row_def seed_uniform del: upt_Suc foldl.simps)
qed

lemma rows_uniform:
  assumes "length med = 10000" and "n \<le> 100"
  shows "\<exists>lowest' med'. foldl (median_row (replicate 10000 c)) (lowest, med)
             (map (\<lambda>r. 100 * int r) [0..<n]) = (lowest', med') \<and> filled c (100 * n) med'"
  using assms(2)
proof (induction n)
  case 0
  then show ?case using assms(1) by (simp add: filled_def)
next
  case (Suc n)
  then obtain lowest' med' where
    f: "foldl (median_row (replicate 10000 c)) (lowest, med) (map (\<lambda>r. 100 * int r) [0..<n])
          = (lowest', med')" and g: "filled c (100 * n) med'"
    by auto
  have "filled c (nat (100 * int n)) med'" using g by (simp add: nat_mult_distrib)
  then obtain lowest'' med'' where
    h: "median_row (replicate 10000 c) (lowest', med') (100 * int n) = (lowest'', med'')"
      and k: "filled c (nat (100 * int n) + 100) med''"
    using median_row_uniform [of c "100 * int n" med' lowest'] Suc.prems by auto
  have "foldl (median_row (replicate 10000 c)) (lowest, med) (map (\<lambda>r. 100 * int r) [0..<Suc n])
          = (lowest'', med'')"
    using f h by simp
  moreover have "filled c (100 * Suc n) med''" using k by (simp add: nat_mult_distrib add.commute)
  ultimately show ?case by blast
qed

text \<open>
  Claim C5.  For every value \<open>c\<close> in 0..255, \<open>median5x5\<close> on the uniform 100x100
  image of value \<open>c\<close> writes \<open>c\<close> to every one of the 10000 output pixels, the border
  rows and columns included, whatever the arrays \<open>lowest\<close> and \<open>med\<close> held before.
\<close>

theorem median5x5_uniform:
  assumes "length med = 10000"
  shows "snd (median5x5 (replicate 10000 c) lowest med) = replicate 10000 c"
proof -
  obtain lowest' med' where
    f: "median5x5 (replicate 10000 c) lowest med = (lowest', med')" and g: "filled c (100 * 100) med'"
    using rows_uniform [OF assms, of 100 c lowest] by (auto simp add: median5x5_def)
  have "med' = replicate 10000 c"
    using g by (intro replicate_eqI) (auto simp add: filled_def in_set_conv_nth)
  then show ?thesis using f by simp
qed

theorem median5x5_uniform_witness:
  "length (replicate 10000 (0 :: byte)) = 10000
   \<and> snd (median5x5 (replicate 10000 7) (replicate 6 0) (replicate 10000 0)) = replicate 10000 7"
  using median5x5_uniform [of "replicate 10000 0" 7 "replicate 6 0"] by simp

end
